theory Spec2Isabelle
  imports Main "HOL-Library.Sublist" "HOL-Library.Monad_Syntax"
begin

section \<open>Byte strings\<close>

text \<open>
  Python \<^verbatim>\<open>bytes\<close> values are lists of 8-bit characters; a HOL \<^typ>\<open>char\<close> is exactly
  one byte, so byte strings are written as HOL string literals.
\<close>

type_synonym bytes = "char list"

text \<open>\<^verbatim>\<open>data.endswith(suffix)\<close>\<close>

definition endswith :: "bytes \<Rightarrow> bytes \<Rightarrow> bool" where
  "endswith data sfx \<longleftrightarrow>
     length sfx \<le> length data \<and> drop (length data - length sfx) data = sfx"

text \<open>
  \<^verbatim>\<open>data[: -n]\<close> for \<^verbatim>\<open>n = len(marker)\<close>. Python reads \<^verbatim>\<open>-0\<close> as \<^verbatim>\<open>0\<close>, so for an
  empty marker the slice is \<^verbatim>\<open>data[:0]\<close>, the empty byte string; for \<^verbatim>\<open>n\<close> beyond the
  length of the data the slice is empty as well.
\<close>

definition strip_last :: "nat \<Rightarrow> bytes \<Rightarrow> bytes" where
  "strip_last n data = (if n = 0 then [] else take (length data - n) data)"

text \<open>
  Modelled from the spec: the constant \<^verbatim>\<open>LF\<close> is imported from
  \<^verbatim>\<open>thonny.plugins.micropython.bare_metal_backend\<close>; the spec calls it the line-feed byte
  marker. The normal prompt marker \<^verbatim>\<open>NORMAL_PROMPT\<close> comes from the same module and the
  spec does not give its bytes, so every operation below takes it as the parameter \<open>np\<close>.
\<close>

definition LF :: bytes where
  "LF = [CHR 0x0A]"

text \<open>
  Modelled from the spec: \<^verbatim>\<open>ends_overlap\<close> is imported from
  \<^verbatim>\<open>thonny.plugins.micropython.backend\<close>. The spec describes it as the pure predicate that
  holds when the tail of the buffer is a nonempty prefix of the marker, that is, some
  nonzero length \<open>k\<close> up to the marker length has the last \<open>k\<close> bytes of the buffer equal to
  the first \<open>k\<close> bytes of the marker, where a buffer that ends with the whole marker is an
  exact match and not an overlap.
\<close>

definition ends_overlap :: "bytes \<Rightarrow> bytes \<Rightarrow> bool" where
  "ends_overlap left right \<longleftrightarrow>
     \<not> endswith left right \<and>
     list_ex (\<lambda>k. endswith left (take k right)) [1..<Suc (length right)]"

section \<open>The output scanner\<close>

text \<open>The exceptions that the operations of this file raise or let pass.\<close>

datatype error =
    NotImplementedError
  | ConnectionFailedException
  | ConnectionClosedException
  | UnicodeDecodeError
  | AttributeError

text \<open>
  The connection is an external collaborator. For the timeout-bounded reads
  (\<^verbatim>\<open>soft_read_until\<close>, \<^verbatim>\<open>soft_read\<close>, \<^verbatim>\<open>read_all\<close>) it is given by the list of the
  results that the successive reads will deliver, in call order, and by a flag that tells
  whether the connection is closed, or in error, once these deliveries are used up.
\<close>

record connection =
  deliveries :: "bytes list"
  closed :: bool

text \<open>
  A live child that sends the given deliveries and is silent afterwards, and a connection
  that is closed after the given deliveries.
\<close>

definition live :: "bytes list \<Rightarrow> connection" where
  "live ds = \<lparr>deliveries = ds, closed = False\<rparr>"


text \<open>
  Modelled from the spec: the read methods belong to the connection class, which is not
  part of this file. A read of a live connection returns the next delivery, and the empty
  byte string when the timeout passes without data. A read of a connection that is closed
  or in error brings no data and reports the transport failure, which is fatal to the
  current command: the read raises \<^verbatim>\<open>ConnectionClosedException\<close>.
\<close>

definition soft_read :: "connection \<Rightarrow> error + bytes \<times> connection" where
  "soft_read conn =
     (case deliveries conn of
        r # rs \<Rightarrow> Inr (r, conn\<lparr>deliveries := rs\<rparr>)
      | [] \<Rightarrow> if closed conn then Inl ConnectionClosedException else Inr ([], conn))"

text \<open>
  The local state of \<^verbatim>\<open>_forward_output_until_active_prompt\<close>: the \<^verbatim>\<open>pending\<close> buffer, the
  chunks handed to \<^verbatim>\<open>output_consumer\<close> so far (oldest first), and, as a history variable,
  all bytes the reads of this scan have returned.
\<close>

record scan_state =
  pending :: bytes
  emitted :: "bytes list"
  received :: bytes

definition scan_init :: scan_state where
  "scan_init = \<lparr>pending = [], emitted = [], received = []\<rparr>"

definition emit :: "bytes \<Rightarrow> scan_state \<Rightarrow> scan_state" where
  "emit data st = st\<lparr>emitted := emitted st @ [data]\<rparr>"

text \<open>
  One pass through the body of the \<^verbatim>\<open>while True\<close> loop. \<open>Continue\<close> is the jump back to
  the loop head (by \<^verbatim>\<open>continue\<close> or by reaching the end of the body), \<open>PromptReached\<close> is
  \<^verbatim>\<open>return NORMAL_PROMPT\<close>. The loop has no \<^verbatim>\<open>try\<close>, so an exception raised by one of
  its two reads leaves the scan at once: \<open>Raised\<close>, with the state as it is at that point.
  The call \<^verbatim>\<open>_check_for_side_commands()\<close> at the loop head belongs to the base class; it
  acts on the connection only and does not touch the local state of the scan.
\<close>

datatype scan_outcome =
    Continue connection scan_state
  | PromptReached connection scan_state
  | Raised error connection scan_state

text \<open>The \<^verbatim>\<open>if\<close> / \<^verbatim>\<open>elif\<close> / \<^verbatim>\<open>else\<close> chain on the pending buffer, tested in source order.\<close>

datatype buffer_class = HaveLineEnd | HaveFullMarker | HaveOverlap | NoPromptInSight

definition classify :: "bytes \<Rightarrow> bytes \<Rightarrow> buffer_class" where
  "classify np p =
     (if endswith p LF then HaveLineEnd
      else if endswith p np then HaveFullMarker
      else if ends_overlap p np then HaveOverlap
      else NoPromptInSight)"

definition scan_step :: "bytes \<Rightarrow> connection \<Rightarrow> scan_state \<Rightarrow> scan_outcome" where
  "scan_step np conn st =
     (case soft_read conn of
        Inl e \<Rightarrow> Raised e conn st
      | Inr (new_data, conn1) \<Rightarrow>
          (let st1 = st\<lparr>received := received st @ new_data\<rparr>
           in if new_data = [] then Continue conn1 st1
              else
                (let p = pending st1 @ new_data;
                     st2 = st1\<lparr>pending := p\<rparr>
                 in (case classify np p of
                       HaveLineEnd \<Rightarrow> Continue conn1 ((emit p st2)\<lparr>pending := []\<rparr>)
                     | HaveFullMarker \<Rightarrow>
                         PromptReached conn1 (emit (strip_last (length np) p) st2)
                     | HaveOverlap \<Rightarrow>
                         (case soft_read conn1 of
                            Inl e \<Rightarrow> Raised e conn1 st2
                          | Inr (follow_up, conn2) \<Rightarrow>
                              (let st3 = st2\<lparr>received := received st2 @ follow_up\<rparr>
                               in if follow_up = []
                                  then Continue conn2 ((emit p st3)\<lparr>pending := []\<rparr>)
                                  else Continue conn2 (st3\<lparr>pending := p @ follow_up\<rparr>)))
                     | NoPromptInSight \<Rightarrow>
                         Continue conn1 ((emit p st2)\<lparr>pending := []\<rparr>)))))"

text \<open>
  The loop itself. It ends by the \<^verbatim>\<open>return\<close> (no exception: \<open>None\<close> in the first
  component) or by an exception that a read raises, so it is a partial function: the
  result \<open>None\<close> means that the scan never ends.
\<close>

partial_function (option) scan_loop ::
    "bytes \<Rightarrow> connection \<Rightarrow> scan_state \<Rightarrow> (error option \<times> connection \<times> scan_state) option" where
  "scan_loop np conn st =
     (case scan_step np conn st of
        Continue conn' st' \<Rightarrow> scan_loop np conn' st'
      | PromptReached conn' st' \<Rightarrow> Some (None, conn', st')
      | Raised e conn' st' \<Rightarrow> Some (Some e, conn', st'))"

declare scan_loop.simps [code]

definition forward_output_until_active_prompt ::
    "bytes \<Rightarrow> connection \<Rightarrow> (error option \<times> connection \<times> scan_state) option" where
  "forward_output_until_active_prompt np conn = scan_loop np conn scan_init"

text \<open>The outcome after at most \<open>n\<close> passes through the loop body.\<close>

fun scan_iter :: "nat \<Rightarrow> bytes \<Rightarrow> connection \<Rightarrow> scan_state \<Rightarrow> scan_outcome" where
  "scan_iter 0 np conn st = Continue conn st"
| "scan_iter (Suc n) np conn st =
     (case scan_step np conn st of
        Continue conn' st' \<Rightarrow> scan_iter n np conn' st'
      | PromptReached conn' st' \<Rightarrow> PromptReached conn' st'
      | Raised e conn' st' \<Rightarrow> Raised e conn' st')"

section \<open>The script submitter\<close>

definition PASTE_MODE_CMD :: bytes where
  "PASTE_MODE_CMD = [CHR 0x05]"

definition PASTE_MODE_LINE_PREFIX :: bytes where
  "PASTE_MODE_LINE_PREFIX = ''=== ''"

text \<open>The literal \<^verbatim>\<open>"#uuu"\<close> that is appended to the script and then awaited.\<close>

definition SENTINEL :: bytes where
  "SENTINEL = ''#uuu''"

text \<open>
  Modelled from the spec: \<^verbatim>\<open>EOT\<close> is imported from \<^verbatim>\<open>thonny.plugins.micropython.backend\<close>;
  the spec calls it the end-of-transmission control byte.
\<close>

definition EOT :: bytes where
  "EOT = [CHR 0x04]"

text \<open>
  For the blocking reads the connection is the stream of bytes that the child sends and
  that have not been read yet, together with the log of what has been written to it.
\<close>

record channel =
  incoming :: bytes
  written :: "bytes list"

definition conn_write :: "bytes \<Rightarrow> channel \<Rightarrow> channel" where
  "conn_write data ch = ch\<lparr>written := written ch @ [data]\<rparr>"

text \<open>
  Modelled from the spec: \<^verbatim>\<open>read_until\<close> belongs to the connection class, which is not
  part of this file. The spec gives its contract: it blocks until the pattern is found and
  returns the bytes up to and including its first occurrence, leaving the rest unread.
  \<open>None\<close> means that the pattern never arrives, so the read does not return normally.
\<close>

fun read_until_from :: "bytes \<Rightarrow> bytes \<Rightarrow> bytes \<Rightarrow> (bytes \<times> bytes) option" where
  "read_until_from pat acc [] = (if endswith acc pat then Some (acc, []) else None)"
| "read_until_from pat acc (b # bs) =
     (if endswith acc pat then Some (acc, b # bs) else read_until_from pat (acc @ [b]) bs)"

definition read_until :: "bytes \<Rightarrow> channel \<Rightarrow> (bytes \<times> channel) option" where
  "read_until pat ch =
     (case read_until_from pat [] (incoming ch) of
        None \<Rightarrow> None
      | Some (r, rest) \<Rightarrow> Some (r, ch\<lparr>incoming := rest\<rparr>))"

text \<open>
  \<^verbatim>\<open>_execute_with_consumer\<close>. The result is the list of calls made to
  \<^verbatim>\<open>output_consumer\<close>, each with its data and stream name, and the connection afterwards;
  \<open>None\<close> when one of the four blocking reads does not return.
\<close>

definition execute_with_consumer ::
    "bytes \<Rightarrow> bytes \<Rightarrow> channel \<Rightarrow> ((bytes \<times> string) list \<times> channel) option" where
  "execute_with_consumer np script ch =
     do {
       let ch1 = conn_write PASTE_MODE_CMD ch;
       (r1, ch2) \<leftarrow> read_until PASTE_MODE_LINE_PREFIX ch1;
       let ch3 = conn_write (script @ SENTINEL) ch2;
       (r2, ch4) \<leftarrow> read_until SENTINEL ch3;
       let ch5 = conn_write EOT ch4;
       (r3, ch6) \<leftarrow> read_until LF ch5;
       (r4, ch7) \<leftarrow> read_until np ch6;
       let out = strip_last (length np) r4;
       Some ([(out, ''stdout'')], ch7)
     }"

text \<open>
  Modelled from the spec: the interpreter is an external program. The spec describes what
  it sends in answer to one submission: the paste-mode line prefix once paste mode is
  entered, the submitted bytes echoed verbatim, its own newline after accepting
  end-of-transmission, the output of the script, and the normal prompt. \<open>preamble\<close> is
  whatever precedes the line prefix.
\<close>

definition paste_transcript :: "bytes \<Rightarrow> bytes \<Rightarrow> bytes \<Rightarrow> bytes \<Rightarrow> bytes" where
  "paste_transcript np preamble script output =
     preamble @ PASTE_MODE_LINE_PREFIX @ (script @ SENTINEL) @ LF @ output @ np"

text \<open>A pattern no proper nonempty prefix of which is also its suffix.\<close>

definition borderless :: "bytes \<Rightarrow> bool" where
  "borderless pat \<longleftrightarrow>
     list_all (\<lambda>j. take j pat \<noteq> drop (length pat - j) pat) [1..<length pat]"

text \<open>The byte string \<open>r\<close> ends with the pattern and none of its proper prefixes does.\<close>

definition ends_at_first :: "bytes \<Rightarrow> bytes \<Rightarrow> bool" where
  "ends_at_first pat r \<longleftrightarrow>
     endswith r pat \<and> list_all (\<lambda>m. \<not> endswith (take m r) pat) [0..<length r]"

section \<open>The session controller\<close>

text \<open>
  Python \<^verbatim>\<open>str\<close> values are lists of code points. \<^verbatim>\<open>ENCODING\<close> is imported from the
  base module, so decoding is the parameter \<open>decode\<close> of the operations that use it;
  \<open>None\<close> is a \<^verbatim>\<open>UnicodeDecodeError\<close>.
\<close>

type_synonym str = "nat list"




text \<open>
  What the backend hands to the base class: a call \<^verbatim>\<open>_send_output(data, stream_name)\<close> or
  the \<^verbatim>\<open>HideTrailingOutput\<close> event given to \<^verbatim>\<open>send_message\<close>.
\<close>

datatype event =
    SendOutput bytes string
  | HideTrailingOutput str

text \<open>
  The attributes of the backend object that this file reads or assigns. The two welcome
  texts do not exist until they are first assigned.
\<close>

record backend =
  connection :: connection
  original_welcome_text :: "str option"
  welcome_text :: "str option"
  events :: "event list"

text \<open>
  An operation ends normally (\<open>None\<close>) or by raising (\<open>Some e\<close>); in both cases the
  backend object is left in the state given.
\<close>

type_synonym outcome = "error option \<times> backend"

definition send_output :: "bytes \<Rightarrow> string \<Rightarrow> backend \<Rightarrow> backend" where
  "send_output data stream_name b = b\<lparr>events := events b @ [SendOutput data stream_name]\<rparr>"





text \<open>
  \<^verbatim>\<open>_forward_unexpected_output\<close>; \<^verbatim>\<open>read_all\<close> is the next read of the connection, and an
  exception that it raises ends the method.
\<close>

definition forward_unexpected_output :: "bytes \<Rightarrow> backend \<Rightarrow> outcome" where
  "forward_unexpected_output np b =
     (case soft_read (connection b) of
        Inl e \<Rightarrow> (Some e, b)
      | Inr (data, conn') \<Rightarrow>
          (let b1 = b\<lparr>connection := conn'\<rparr>
           in (None,
               if endswith data np then send_output (strip_last (length np) data) ''stdout'' b1
               else if data \<noteq> [] then send_output data ''stdout'' b1
               else b1)))"

text \<open>The operations that this backend does not support.\<close>

definition soft_reboot :: "'side_command \<Rightarrow> backend \<Rightarrow> outcome" where
  "soft_reboot side_command b = (Some NotImplementedError, b)"

definition cmd_get_fs_info :: "'cmd \<Rightarrow> backend \<Rightarrow> outcome" where
  "cmd_get_fs_info cmd b = (Some NotImplementedError, b)"

definition cmd_write_file :: "'cmd \<Rightarrow> backend \<Rightarrow> outcome" where
  "cmd_write_file cmd b = (Some NotImplementedError, b)"

definition cmd_delete :: "'cmd \<Rightarrow> backend \<Rightarrow> outcome" where
  "cmd_delete cmd b = (Some NotImplementedError, b)"

definition cmd_read_file :: "'cmd \<Rightarrow> backend \<Rightarrow> outcome" where
  "cmd_read_file cmd b = (Some NotImplementedError, b)"

definition cmd_mkdir :: "'cmd \<Rightarrow> backend \<Rightarrow> outcome" where
  "cmd_mkdir cmd b = (Some NotImplementedError, b)"

definition upload_file :: "'path \<Rightarrow> 'path \<Rightarrow> 'notifier \<Rightarrow> backend \<Rightarrow> outcome" where
  "upload_file source target notifier b = (Some NotImplementedError, b)"

definition download_file :: "'path \<Rightarrow> 'path \<Rightarrow> 'notifier \<Rightarrow> backend \<Rightarrow> outcome" where
  "download_file source target notifier b = (Some NotImplementedError, b)"

section \<open>Properties of the byte-string operations\<close>

lemma endswith_suffix: "endswith data sfx \<longleftrightarrow> suffix sfx data"
proof
  assume "endswith data sfx"
  then have "drop (length data - length sfx) data = sfx" by (simp add: endswith_def)
  then show "suffix sfx data" by (metis suffix_drop)
next
  assume "suffix sfx data"
  then obtain ps where "data = ps @ sfx" by (auto simp: suffix_def)
  then show "endswith data sfx" by (simp add: endswith_def)
qed

lemma endswith_append: "endswith (xs @ sfx) sfx"
  by (simp add: endswith_def)

lemma endswith_strip_last:
  "endswith p np \<Longrightarrow> np \<noteq> [] \<Longrightarrow> strip_last (length np) p @ np = p"
  unfolding endswith_def strip_last_def
  by (metis append_take_drop_id length_0_conv)

lemma ends_overlap_iff:
  "ends_overlap B M \<longleftrightarrow>
     (\<exists>k. 1 \<le> k \<and> k \<le> length M \<and> drop (length B - k) B = take k M) \<and> \<not> endswith B M"
proof -
  have "(\<exists>k\<in>set [1..<Suc (length M)]. endswith B (take k M)) \<longleftrightarrow>
        (\<exists>k. 1 \<le> k \<and> k \<le> length M \<and> drop (length B - k) B = take k M)"
    (is "?L \<longleftrightarrow> ?R")
  proof
    assume ?L
    then obtain k where k: "1 \<le> k" "k \<le> length M" "endswith B (take k M)" by auto
    then have "drop (length B - k) B = take k M" by (simp add: endswith_def min_absorb2)
    with k show ?R by blast
  next
    assume ?R
    then obtain k where k: "1 \<le> k" "k \<le> length M" "drop (length B - k) B = take k M" by blast
    from k(3) have "length (drop (length B - k) B) = length (take k M)" by simp
    with k(2) have "k \<le> length B" by simp
    with k have e: "endswith B (take k M)" by (simp add: endswith_def min_absorb2)
    from k(1,2) have "k \<in> set [1..<Suc (length M)]" by auto
    with e show ?L by blast
  qed
  then show ?thesis by (auto simp: ends_overlap_def list_ex_iff)
qed

lemma classify_full: "classify np p = HaveFullMarker \<Longrightarrow> endswith p np"
  by (auto simp: classify_def split: if_splits)

lemma classify_overlap:
  "classify np p = HaveOverlap \<longleftrightarrow> \<not> endswith p LF \<and> \<not> endswith p np \<and> ends_overlap p np"
  by (auto simp: classify_def)

section \<open>Properties of the output scanner\<close>

lemma soft_read_data:
  "soft_read conn = Inr (r, conn') \<Longrightarrow>
   r @ concat (deliveries conn') = concat (deliveries conn) \<and> closed conn' = closed conn \<and>
   length (deliveries conn') \<le> length (deliveries conn)"
  by (cases "deliveries conn") (auto simp: soft_read_def split: if_splits)



lemma scan_step_received:
  assumes "scan_step np conn st = Continue conn' st' \<or>
           scan_step np conn st = PromptReached conn' st' \<or>
           scan_step np conn st = Raised e conn' st'"
  shows "received st' @ concat (deliveries conn') = received st @ concat (deliveries conn) \<and>
         closed conn' = closed conn"
  using assms
  by (auto simp: scan_step_def emit_def Let_def
           split: sum.splits prod.splits if_splits buffer_class.splits
           dest!: soft_read_data)

lemma scan_step_inv:
  assumes "concat (emitted st) @ pending st = received st"
      and "scan_step np conn st = Continue conn' st' \<or> scan_step np conn st = Raised e conn' st'"
  shows "concat (emitted st') @ pending st' = received st'"
  using assms(2) assms(1)[symmetric]
  by (auto simp: scan_step_def emit_def Let_def
           split: sum.splits prod.splits if_splits buffer_class.splits)

lemma scan_step_prompt:
  assumes "concat (emitted st) @ pending st = received st"
      and "np \<noteq> []"
      and "scan_step np conn st = PromptReached conn' st'"
  shows "concat (emitted st') @ np = received st' \<and> endswith (pending st') np"
proof -
  from assms(3) obtain d c1 where r1: "soft_read conn = Inr (d, c1)"
    by (auto simp: scan_step_def split: sum.splits)
  from assms(3) have full: "endswith (pending st @ d) np"
    and st': "st' = emit (strip_last (length np) (pending st @ d))
                 (st\<lparr>received := received st @ d, pending := pending st @ d\<rparr>)"
    by (auto simp: scan_step_def r1 Let_def classify_full
             split: sum.splits prod.splits if_splits buffer_class.splits)
  from endswith_strip_last[OF full assms(2)] assms(1)[symmetric] full
  show ?thesis by (simp add: st' emit_def)
qed

lemma scan_iter_inv:
  "concat (emitted st) @ pending st = received st \<Longrightarrow>
   scan_iter n np conn st = Continue conn' st' \<or> scan_iter n np conn st = Raised e conn' st' \<Longrightarrow>
   concat (emitted st') @ pending st' = received st' \<and>
   received st' @ concat (deliveries conn') = received st @ concat (deliveries conn)"
proof (induction n arbitrary: conn st)
  case 0
  then show ?case by simp
next
  case (Suc n)
  show ?case
  proof (cases "scan_step np conn st")
    case (Continue c1 s1)
    with Suc.prems(2) have rest:
      "scan_iter n np c1 s1 = Continue conn' st' \<or> scan_iter n np c1 s1 = Raised e conn' st'"
      by simp
    from scan_step_inv[OF Suc.prems(1), of np conn c1 s1] Continue
    have inv1: "concat (emitted s1) @ pending s1 = received s1" by simp
    from scan_step_received[of np conn st c1 s1] Continue
    have rc: "received s1 @ concat (deliveries c1) = received st @ concat (deliveries conn)"
      by simp
    from Suc.IH[OF inv1 rest] rc show ?thesis by simp
  next
    case (PromptReached c1 s1)
    with Suc.prems(2) show ?thesis by simp
  next
    case (Raised e1 c1 s1)
    with Suc.prems(2) have eq: "e1 = e" "c1 = conn'" "s1 = st'" by simp_all
    from scan_step_inv[OF Suc.prems(1), of np conn conn' st' e] Raised eq
         scan_step_received[of np conn st conn' st' e] 
    show ?thesis by simp
  qed
qed

lemma scan_iter_prompt:
  "concat (emitted st) @ pending st = received st \<Longrightarrow> np \<noteq> [] \<Longrightarrow>
   scan_iter n np conn st = PromptReached conn' st' \<Longrightarrow>
   concat (emitted st') @ np = received st' \<and>
   received st' @ concat (deliveries conn') = received st @ concat (deliveries conn)"
proof (induction n arbitrary: conn st)
  case 0
  then show ?case by simp
next
  case (Suc n)
  show ?case
  proof (cases "scan_step np conn st")
    case (Continue c1 s1)
    with Suc.prems(3) have rest: "scan_iter n np c1 s1 = PromptReached conn' st'" by simp
    from scan_step_inv[OF Suc.prems(1), of np conn c1 s1] Continue
    have inv1: "concat (emitted s1) @ pending s1 = received s1" by simp
    from scan_step_received[of np conn st c1 s1] Continue
    have rc: "received s1 @ concat (deliveries c1) = received st @ concat (deliveries conn)"
      by simp
    from Suc.IH[OF inv1 Suc.prems(2) rest] rc show ?thesis by simp
  next
    case (PromptReached c1 s1)
    with Suc.prems(3) have eq: "c1 = conn'" "s1 = st'" by simp_all
    from scan_step_prompt[OF Suc.prems(1,2) PromptReached]
         scan_step_received[of np conn st c1 s1] PromptReached eq
    show ?thesis by simp
  next
    case (Raised e1 c1 s1)
    with Suc.prems(3) show ?thesis by simp
  qed
qed

text \<open>The scan ends exactly when some number of passes ends it, and with that outcome.\<close>

lemma scan_iter_loop:
  "scan_iter n np conn st = PromptReached conn' st' \<Longrightarrow>
   scan_loop np conn st = Some (None, conn', st')"
  "scan_iter n np conn st = Raised e conn' st' \<Longrightarrow>
   scan_loop np conn st = Some (Some e, conn', st')"
proof (induction n arbitrary: conn st)
  case 0
  { case 1 then show ?case by simp }
  { case 2 then show ?case by simp }
next
  case (Suc n)
  { case 1 
    with Suc.IH(1) show ?case
      by (subst scan_loop.simps) (auto split: scan_outcome.splits) }
  { case 2
    with Suc.IH(2) show ?case
      by (subst scan_loop.simps) (auto split: scan_outcome.splits) }
qed

lemma scan_loop_iter_aux:
  assumes "scan_loop np conn st = Some y"
  shows "\<exists>n. scan_iter n np conn st =
           (case fst y of None \<Rightarrow> PromptReached (fst (snd y)) (snd (snd y))
                        | Some e \<Rightarrow> Raised e (fst (snd y)) (snd (snd y)))"
proof (rule scan_loop.raw_induct
         [where P = "\<lambda>np conn st y. \<exists>n. scan_iter n np conn st =
           (case fst y of None \<Rightarrow> PromptReached (fst (snd y)) (snd (snd y))
                        | Some e \<Rightarrow> Raised e (fst (snd y)) (snd (snd y)))",
          OF _ assms])
  fix f np conn st y
  assume IH: "\<And>np conn st y. f np conn st = Some y \<Longrightarrow>
                \<exists>n. scan_iter n np conn st =
           (case fst y of None \<Rightarrow> PromptReached (fst (snd y)) (snd (snd y))
                        | Some e \<Rightarrow> Raised e (fst (snd y)) (snd (snd y)))"
    and body: "(case scan_step np conn st of
                  Continue conn' st' \<Rightarrow> f np conn' st'
                | PromptReached conn' st' \<Rightarrow> Some (None, conn', st')
                | Raised e conn' st' \<Rightarrow> Some (Some e, conn', st')) = Some y"
  let ?out = "case fst y of None \<Rightarrow> PromptReached (fst (snd y)) (snd (snd y))
                        | Some e \<Rightarrow> Raised e (fst (snd y)) (snd (snd y))"
  show "\<exists>n. scan_iter n np conn st = ?out"
  proof (cases "scan_step np conn st")
    case (Continue c1 s1)
    with body have "f np c1 s1 = Some y" by simp
    from IH[OF this] obtain n where "scan_iter n np c1 s1 = ?out" ..
    with Continue have "scan_iter (Suc n) np conn st = ?out" by simp
    then show ?thesis ..
  next
    case (PromptReached c1 s1)
    with body have "scan_iter (Suc 0) np conn st = ?out" by auto
    then show ?thesis ..
  next
    case (Raised e1 c1 s1)
    with body have "scan_iter (Suc 0) np conn st = ?out" by auto
    then show ?thesis ..
  qed
qed

lemma scan_loop_iff_iter:
  "scan_loop np conn st = Some (None, conn', st') \<longleftrightarrow>
     (\<exists>n. scan_iter n np conn st = PromptReached conn' st')"
  "scan_loop np conn st = Some (Some e, conn', st') \<longleftrightarrow>
     (\<exists>n. scan_iter n np conn st = Raised e conn' st')"
  using scan_iter_loop(1)[of _ np conn st conn' st']
        scan_iter_loop(2)[of _ np conn st e conn' st']
        scan_loop_iter_aux[of np conn st "(None, conn', st')"]
        scan_loop_iter_aux[of np conn st "(Some e, conn', st')"]
  by auto

text \<open>A live child that sends nothing more: every pass retries, and the scan never ends.\<close>

lemma scan_step_silent:
  assumes "\<not> closed conn" and "\<forall>r\<in>set (deliveries conn). r = []"
  shows "scan_step np conn st = Continue (conn\<lparr>deliveries := tl (deliveries conn)\<rparr>) st"
  using assms by (cases "deliveries conn") (simp_all add: scan_step_def soft_read_def)

lemma scan_iter_silent:
  "\<not> closed conn \<Longrightarrow> \<forall>r\<in>set (deliveries conn). r = [] \<Longrightarrow>
   scan_iter n np conn st = Continue (conn\<lparr>deliveries := drop n (deliveries conn)\<rparr>) st"
proof (induction n arbitrary: conn)
  case 0
  then show ?case by simp
next
  case (Suc n)
  let ?c = "conn\<lparr>deliveries := tl (deliveries conn)\<rparr>"
  have "\<not> closed ?c" using Suc.prems(1) by simp
  moreover have "\<forall>r\<in>set (deliveries ?c). r = []"
    using Suc.prems(2) by (cases "deliveries conn") auto
  ultimately have "scan_iter n np ?c st = Continue (?c\<lparr>deliveries := drop n (deliveries ?c)\<rparr>) st"
    by (rule Suc.IH)
  with scan_step_silent[OF Suc.prems] show ?case by (simp add: drop_Suc)
qed

lemma scan_loop_silent:
  assumes "\<not> closed conn" and "\<forall>r\<in>set (deliveries conn). r = []"
  shows "scan_loop np conn st = None"
proof (cases "scan_loop np conn st")
  case None
  then show ?thesis .
next
  case (Some y)
  from scan_loop_iter_aux[OF this] obtain n where
    "scan_iter n np conn st =
       (case fst y of None \<Rightarrow> PromptReached (fst (snd y)) (snd (snd y))
                    | Some e \<Rightarrow> Raised e (fst (snd y)) (snd (snd y)))" ..
  with scan_iter_silent[OF assms, of n np st] show ?thesis by (cases "fst y") simp_all
qed






text \<open>
  Claim C4. The overlap predicate holds exactly when some \<open>k\<close> between 1 and the length of
  the marker has the last \<open>k\<close> bytes of the buffer equal to the first \<open>k\<close> bytes of the
  marker and the buffer does not end with the whole marker. Overlap and exact suffix match
  exclude each other, and the scanner classifies a buffer as an overlap only when it does
  not end with the whole prompt marker.
\<close>

theorem ends_overlap_characterisation:
  "(ends_overlap B M \<longleftrightarrow>
      (\<exists>k. 1 \<le> k \<and> k \<le> length M \<and> drop (length B - k) B = take k M) \<and> \<not> endswith B M) \<and>
   \<not> (ends_overlap B M \<and> endswith B M) \<and>
   (classify M B = HaveOverlap \<longrightarrow> ends_overlap B M \<and> \<not> endswith B M)"
  using ends_overlap_iff[of B M] by (auto simp: classify_overlap)

theorem ends_overlap_characterisation_witness:
  "classify ''>>> '' ''ab>>'' = HaveOverlap \<and>
   ends_overlap ''ab>>'' ''>>> '' \<and> \<not> endswith ''ab>>'' ''>>> '' \<and>
   (\<exists>k. 1 \<le> k \<and> k \<le> length ''>>> '' \<and> drop (length ''ab>>'' - k) ''ab>>'' = take k ''>>> '')"
proof -
  have h: "classify ''>>> '' ''ab>>'' = HaveOverlap" by code_simp
  with ends_overlap_characterisation[of "''ab>>''" "''>>> ''"] show ?thesis by blast
qed

text \<open>
  Claim C5. When the buffer, after the new data has been appended, is classified as an
  overlap and the one-byte probe read returns nothing, the pass through the loop body ends
  with a jump back to the loop head: the whole buffer has been handed to the consumer as one
  chunk, the buffer is empty, and no prompt is signalled.
\<close>

theorem probe_timeout_flush:
  assumes "soft_read conn = Inr (new_data, conn1)" and "new_data \<noteq> []"
      and "classify np (pending st @ new_data) = HaveOverlap"
      and "soft_read conn1 = Inr ([], conn2)"
  shows "scan_step np conn st =
           Continue conn2 (st\<lparr>pending := [],
                               emitted := emitted st @ [pending st @ new_data],
                               received := received st @ new_data\<rparr>)"
  using assms by (simp add: scan_step_def emit_def)

theorem probe_timeout_flush_witness:
  "scan_step ''>>> '' (live [''ab>>'']) scan_init =
     Continue (live []) \<lparr>pending = [], emitted = [''ab>>''], received = ''ab>>''\<rparr>"
proof -
  have h1: "soft_read (live [''ab>>'']) = Inr (''ab>>'', live [])"
    by (simp add: soft_read_def live_def)
  have h2: "''ab>>'' \<noteq> []" by simp
  have h3: "classify ''>>> '' (pending scan_init @ ''ab>>'') = HaveOverlap" by code_simp
  have h4: "soft_read (live []) = Inr ([], live [])" by (simp add: soft_read_def live_def)
  from probe_timeout_flush[OF h1 h2 h3 h4] show ?thesis by (simp add: scan_init_def)
qed

text \<open>
  Claim C9. After any number of passes through the loop body, the chunks emitted so far
  followed by the pending buffer are exactly the bytes that the reads of this scan have
  returned, which in turn are the deliveries of the connection consumed so far, in order.
  When the scan returns, the emitted chunks followed by the prompt marker are exactly the
  bytes read. When the scan ends by an exception of a read, the emitted chunks followed by
  the pending buffer are the bytes read.
\<close>

theorem scan_invariant:
  "(scan_iter n np conn scan_init = Continue conn' st \<longrightarrow>
      concat (emitted st) @ pending st = received st \<and>
      received st @ concat (deliveries conn') = concat (deliveries conn)) \<and>
   (np \<noteq> [] \<longrightarrow> forward_output_until_active_prompt np conn = Some (None, conn', st) \<longrightarrow>
      concat (emitted st) @ np = received st \<and>
      received st @ concat (deliveries conn') = concat (deliveries conn)) \<and>
   (forward_output_until_active_prompt np conn = Some (Some e, conn', st) \<longrightarrow>
      concat (emitted st) @ pending st = received st \<and>
      received st @ concat (deliveries conn') = concat (deliveries conn))"
proof -
  have init: "concat (emitted scan_init) @ pending scan_init = received scan_init"
    by (simp add: scan_init_def)
  have r0: "received scan_init = []" by (simp add: scan_init_def)
  have passes: "scan_iter n np conn scan_init = Continue conn' st \<longrightarrow>
      concat (emitted st) @ pending st = received st \<and>
      received st @ concat (deliveries conn') = concat (deliveries conn)"
    using scan_iter_inv[OF init, of n np conn conn' st] by (simp add: r0)
  have returns: "np \<noteq> [] \<longrightarrow>
      forward_output_until_active_prompt np conn = Some (None, conn', st) \<longrightarrow>
      concat (emitted st) @ np = received st \<and>
      received st @ concat (deliveries conn') = concat (deliveries conn)"
    using scan_iter_prompt[OF init, of np _ conn conn' st]
    by (auto simp: r0 forward_output_until_active_prompt_def scan_loop_iff_iter(1))
  have raises: "forward_output_until_active_prompt np conn = Some (Some e, conn', st) \<longrightarrow>
      concat (emitted st) @ pending st = received st \<and>
      received st @ concat (deliveries conn') = concat (deliveries conn)"
    using scan_iter_inv[OF init, of _ np conn conn' st e]
    by (auto simp: r0 forward_output_until_active_prompt_def scan_loop_iff_iter(2))
  from passes returns raises show ?thesis by blast
qed

theorem scan_invariant_witness:
  "scan_iter 1 ''>>> '' (live [''a>'', ''>'', ''>>> '']) scan_init =
     Continue (live [''>>> '']) \<lparr>pending = ''a>>'', emitted = [], received = ''a>>''\<rparr> \<and>
   forward_output_until_active_prompt ''>>> '' (live [''a>'', ''>'', ''>>> '']) =
     Some (None, live [],
           \<lparr>pending = ''a>>>>> '', emitted = [''a>>''], received = ''a>>>>> ''\<rparr>) \<and>
   concat [''a>>''] @ ''>>> '' = ''a>>>>> ''"
proof -
  have h1: "scan_iter 1 ''>>> '' (live [''a>'', ''>'', ''>>> '']) scan_init =
     Continue (live [''>>> '']) \<lparr>pending = ''a>>'', emitted = [], received = ''a>>''\<rparr>"
    by code_simp
  have h2: "forward_output_until_active_prompt ''>>> '' (live [''a>'', ''>'', ''>>> '']) =
     Some (None, live [],
           \<lparr>pending = ''a>>>>> '', emitted = [''a>>''], received = ''a>>>>> ''\<rparr>)"
    by code_simp
  have h3: "''>>> '' \<noteq> []" by simp
  from scan_invariant[of 1 "''>>> ''" "live [''a>'', ''>'', ''>>> '']" "live []"
         "\<lparr>pending = ''a>>>>> '', emitted = [''a>>''], received = ''a>>>>> ''\<rparr>"] h1 h2 h3
  show ?thesis by simp
qed



text \<open>
  Claim C1 on the code. The prompt marker arrives in two pieces, the second one through
  the one-byte probe read. The probe branch appends the byte and jumps back to the loop
  head without looking at the buffer again: the buffer now ends with the whole marker, the
  child is idle at its prompt and sends nothing more, and the scan never returns. The same
  happens when the four bytes of the marker arrive one per read.
\<close>

theorem scan_marker_completed_by_probe:
  "scan_step ''>>> '' (live [''>>>'', '' '']) scan_init =
     Continue (live []) \<lparr>pending = ''>>> '', emitted = [], received = ''>>> ''\<rparr> \<and>
   forward_output_until_active_prompt ''>>> '' (live [''>>>'', '' '']) = None \<and>
   forward_output_until_active_prompt ''>>> '' (live [''>'', ''>'', ''>'', '' '']) = None"
proof -
  have idle: "scan_loop ''>>> '' (live []) s = None" for s
    by (rule scan_loop_silent) (simp_all add: live_def)
  have s1: "scan_step ''>>> '' (live [''>>>'', '' '']) scan_init =
     Continue (live []) \<lparr>pending = ''>>> '', emitted = [], received = ''>>> ''\<rparr>"
    by code_simp
  have l1: "scan_loop ''>>> '' (live [''>>>'', '' '']) scan_init = None"
    by (subst scan_loop.simps) (simp add: s1 idle)
  have s2: "scan_step ''>>> '' (live [''>'', ''>'', ''>'', '' '']) scan_init =
     Continue (live [''>'', '' '']) \<lparr>pending = ''>>'', emitted = [], received = ''>>''\<rparr>"
    by code_simp
  have s3: "scan_step ''>>> '' (live [''>'', '' ''])
              \<lparr>pending = ''>>'', emitted = [], received = ''>>''\<rparr> =
     Continue (live []) \<lparr>pending = ''>>> '', emitted = [], received = ''>>> ''\<rparr>"
    by code_simp
  have l2: "scan_loop ''>>> '' (live [''>'', ''>'', ''>'', '' '']) scan_init = None"
    by (subst scan_loop.simps, simp add: s2, subst scan_loop.simps) (simp add: s3 idle)
  from s1 l1 l2 show ?thesis by (simp add: forward_output_until_active_prompt_def)
qed

section \<open>Properties of the script submitter\<close>

lemma read_until_from_hit:
  "endswith (acc @ take n rest) pat \<Longrightarrow> n \<le> length rest \<Longrightarrow>
   (\<forall>m<n. \<not> endswith (acc @ take m rest) pat) \<Longrightarrow>
   read_until_from pat acc rest = Some (acc @ take n rest, drop n rest)"
proof (induction rest arbitrary: acc n)
  case Nil
  then show ?case by simp
next
  case (Cons b bs)
  show ?case
  proof (cases n)
    case 0
    with Cons.prems show ?thesis by simp
  next
    case (Suc k)
    with Cons.prems(3) have miss: "\<not> endswith acc pat" by force
    have later: "\<forall>m<k. \<not> endswith ((acc @ [b]) @ take m bs) pat"
    proof (intro allI impI)
      fix m assume "m < k"
      then have "Suc m < n" using Suc by simp
      with Cons.prems(3) have "\<not> endswith (acc @ take (Suc m) (b # bs)) pat" by blast
      then show "\<not> endswith ((acc @ [b]) @ take m bs) pat" by simp
    qed
    from Cons.prems(1,2) Suc have "endswith ((acc @ [b]) @ take k bs) pat" "k \<le> length bs"
      by simp_all
    from Cons.IH[OF this later] miss Suc show ?thesis by simp
  qed
qed

lemma read_until_from_sound:
  "read_until_from pat acc rest = Some (r, rest') \<Longrightarrow>
   \<exists>n\<le>length rest. r = acc @ take n rest \<and> rest' = drop n rest \<and> endswith r pat \<and>
      (\<forall>m<n. \<not> endswith (acc @ take m rest) pat)"
proof (induction rest arbitrary: acc)
  case Nil
  then show ?case by (auto split: if_splits)
next
  case (Cons b bs)
  show ?case
  proof (cases "endswith acc pat")
    case True
    with Cons.prems have "r = acc" "rest' = b # bs" by simp_all
    with True show ?thesis by (intro exI[of _ 0]) simp
  next
    case False
    with Cons.prems have "read_until_from pat (acc @ [b]) bs = Some (r, rest')" by simp
    from Cons.IH[OF this] obtain n where n: "n \<le> length bs" "r = (acc @ [b]) @ take n bs"
      "rest' = drop n bs" "endswith r pat" "\<forall>m<n. \<not> endswith ((acc @ [b]) @ take m bs) pat"
      by blast
    have "\<forall>m<Suc n. \<not> endswith (acc @ take m (b # bs)) pat"
    proof (intro allI impI)
      fix m assume m: "m < Suc n"
      show "\<not> endswith (acc @ take m (b # bs)) pat"
      proof (cases m)
        case 0
        with False show ?thesis by simp
      next
        case (Suc k)
        with m n(5) have "\<not> endswith ((acc @ [b]) @ take k bs) pat" by simp
        with Suc show ?thesis by simp
      qed
    qed
    with n show ?thesis by (intro exI[of _ "Suc n"]) simp
  qed
qed

lemma read_until_from_same: "read_until_from pat [] (pat @ rest) = Some (pat, rest)"
proof -
  have "\<forall>m<length pat. \<not> endswith ([] @ take m (pat @ rest)) pat"
    by (simp add: endswith_def)
  from read_until_from_hit[of "[]" "length pat" "pat @ rest" pat, OF _ _ this]
  show ?thesis by (simp add: endswith_def)
qed

lemma borderlessD:
  "borderless pat \<Longrightarrow> 0 < j \<Longrightarrow> j < length pat \<Longrightarrow> take j pat \<noteq> drop (length pat - j) pat"
  by (simp add: borderless_def list_all_iff)

lemma no_early_hit:
  assumes bl: "borderless pat" and ns: "\<not> sublist pat xs"
      and m: "m < length xs + length pat"
  shows "\<not> endswith (take m (xs @ pat @ rest)) pat"
proof
  assume e: "endswith (take m (xs @ pat @ rest)) pat"
  from ns have ne: "pat \<noteq> []" by auto
  from e have suf: "suffix pat (take m (xs @ pat @ rest))" by (simp add: endswith_suffix)
  show False
  proof (cases "m \<le> length xs")
    case True
    then have tk0: "take m (xs @ pat @ rest) = take m xs" by simp
    from suf have "suffix pat (take m xs)" unfolding tk0 .
    then obtain ps where "take m xs = ps @ pat" by (auto simp: suffix_def)
    then have "xs = ps @ pat @ drop m xs" by (metis append_take_drop_id append.assoc)
    then have "sublist pat xs" by (auto simp: sublist_def)
    with ns show False ..
  next
    case False
    define j where "j = m - length xs"
    from False m have j: "0 < j" "j < length pat" "m = length xs + j" by (simp_all add: j_def)
    then have tk: "take m (xs @ pat @ rest) = xs @ take j pat" by simp
    from suf have "suffix pat (xs @ take j pat)" unfolding tk .
    then obtain ps where ps: "xs @ take j pat = ps @ pat" by (auto simp: suffix_def)
    then have "length (xs @ take j pat) = length (ps @ pat)" by simp
    with j have lps: "length xs = length ps + (length pat - j)" by simp
    from ps have "drop (length xs) (xs @ take j pat) = drop (length xs) (ps @ pat)" by simp
    with lps have "take j pat = drop (length pat - j) pat" by simp
    with borderlessD[OF bl j(1,2)] show False ..
  qed
qed

lemma read_until_from_first:
  assumes "borderless pat" and "\<not> sublist pat xs"
  shows "read_until_from pat [] (xs @ pat @ rest) = Some (xs @ pat, rest)"
proof -
  have hit: "endswith ([] @ take (length xs + length pat) (xs @ pat @ rest)) pat"
    by (simp add: endswith_def)
  have early: "\<forall>m<length xs + length pat. \<not> endswith ([] @ take m (xs @ pat @ rest)) pat"
    using no_early_hit[OF assms] by simp
  from read_until_from_hit[OF hit _ early] show ?thesis by simp
qed

lemma read_until_first:
  assumes "borderless pat" and "\<not> sublist pat xs"
  shows "read_until pat \<lparr>incoming = xs @ pat @ rest, written = w\<rparr> =
           Some (xs @ pat, \<lparr>incoming = rest, written = w\<rparr>)"
  by (simp add: read_until_def read_until_from_first[OF assms])

lemma read_until_same:
  "read_until pat \<lparr>incoming = pat @ rest, written = w\<rparr> = Some (pat, \<lparr>incoming = rest, written = w\<rparr>)"
  by (simp add: read_until_def read_until_from_same)

lemma read_until_sound:
  assumes "read_until pat ch = Some (r, ch')"
  shows "incoming ch = r @ incoming ch' \<and> written ch' = written ch \<and> endswith r pat \<and>
         (\<forall>m<length r. \<not> endswith (take m (incoming ch)) pat)"
proof -
  from assms obtain rest where rf: "read_until_from pat [] (incoming ch) = Some (r, rest)"
    and ch': "ch' = ch\<lparr>incoming := rest\<rparr>"
    by (auto simp: read_until_def split: option.splits)
  from read_until_from_sound[OF rf] obtain n where n: "n \<le> length (incoming ch)"
    "r = take n (incoming ch)" "rest = drop n (incoming ch)" "endswith r pat"
    "\<forall>m<n. \<not> endswith (take m (incoming ch)) pat" by auto
  from n(1,2) have "length r = n" by simp
  with n ch' show ?thesis by simp
qed

lemma borderless_SENTINEL: "borderless SENTINEL"
  by (simp add: borderless_def SENTINEL_def upt_rec)

lemma borderless_PREFIX: "borderless PASTE_MODE_LINE_PREFIX"
  by (simp add: borderless_def PASTE_MODE_LINE_PREFIX_def upt_rec)

lemma borderless_LF: "borderless LF"
  by (simp add: borderless_def LF_def)

lemma ends_at_first_iff:
  "ends_at_first pat r \<longleftrightarrow> endswith r pat \<and> (\<forall>m<length r. \<not> endswith (take m r) pat)"
  by (auto simp: ends_at_first_def list_all_iff)

lemma read_until_ends_at_first:
  assumes "read_until pat ch = Some (r, ch')"
  shows "ends_at_first pat r"
proof -
  from read_until_sound[OF assms]
  have inc: "incoming ch = r @ incoming ch'" and e: "endswith r pat"
    and early: "\<forall>m<length r. \<not> endswith (take m (incoming ch)) pat" by blast+
  have "\<forall>m<length r. \<not> endswith (take m r) pat"
  proof (intro allI impI)
    fix m assume m: "m < length r"
    then have "take m (incoming ch) = take m r" by (simp add: inc)
    with early m show "\<not> endswith (take m r) pat" by metis
  qed
  with e show ?thesis by (simp add: ends_at_first_iff)
qed

lemma ends_at_first_no_sublist:
  assumes "ends_at_first pat (out @ pat)" and "pat \<noteq> []"
  shows "\<not> sublist pat out"
proof
  assume "sublist pat out"
  then obtain a c where out: "out = a @ pat @ c" by (auto simp: sublist_def)
  have m: "length a + length pat < length (out @ pat)" using assms(2) by (simp add: out)
  have "take (length a + length pat) (out @ pat) = a @ pat" by (simp add: out)
  with assms(1) m have "\<not> endswith (a @ pat) pat" by (metis ends_at_first_iff)
  then show False by (simp add: endswith_def)
qed

lemma read_until_at_first:
  assumes "ends_at_first pat (xs @ pat)"
  shows "read_until pat \<lparr>incoming = xs @ pat @ rest, written = w\<rparr> =
           Some (xs @ pat, \<lparr>incoming = rest, written = w\<rparr>)"
proof -
  have hit: "endswith ([] @ take (length xs + length pat) (xs @ pat @ rest)) pat"
    by (simp add: endswith_def)
  have early: "\<forall>m<length xs + length pat. \<not> endswith ([] @ take m (xs @ pat @ rest)) pat"
  proof (intro allI impI)
    fix m assume m: "m < length xs + length pat"
    then have "take m (xs @ pat @ rest) = take m (xs @ pat)" by simp
    with assms m show "\<not> endswith ([] @ take m (xs @ pat @ rest)) pat"
      by (simp add: ends_at_first_iff)
  qed
  from read_until_from_hit[OF hit _ early] show ?thesis by (simp add: read_until_def)
qed

lemma strip_last_append: "pat \<noteq> [] \<Longrightarrow> strip_last (length pat) (xs @ pat) = xs"
  by (simp add: strip_last_def)

lemma execute_on_transcript:
  assumes pre: "\<not> sublist PASTE_MODE_LINE_PREFIX preamble"
      and scr: "\<not> sublist SENTINEL script"
      and out: "ends_at_first np (output @ np)" and np: "np \<noteq> []"
  shows "execute_with_consumer np script
           \<lparr>incoming = paste_transcript np preamble script output @ rest, written = w\<rparr> =
         Some ([(output, ''stdout'')],
               \<lparr>incoming = rest, written = w @ [PASTE_MODE_CMD, script @ SENTINEL, EOT]\<rparr>)"
proof -
  let ?w1 = "w @ [PASTE_MODE_CMD]"
  let ?w2 = "w @ [PASTE_MODE_CMD, script @ SENTINEL]"
  let ?w3 = "w @ [PASTE_MODE_CMD, script @ SENTINEL, EOT]"
  let ?s2 = "script @ SENTINEL @ LF @ output @ np @ rest"
  let ?s3 = "LF @ output @ np @ rest"
  let ?s4 = "output @ np @ rest"
  have s1: "paste_transcript np preamble script output @ rest =
              preamble @ PASTE_MODE_LINE_PREFIX @ ?s2"
    by (simp add: paste_transcript_def)
  have r1: "read_until PASTE_MODE_LINE_PREFIX
              \<lparr>incoming = preamble @ PASTE_MODE_LINE_PREFIX @ ?s2, written = ?w1\<rparr> =
            Some (preamble @ PASTE_MODE_LINE_PREFIX, \<lparr>incoming = ?s2, written = ?w1\<rparr>)"
    by (rule read_until_first[OF borderless_PREFIX pre])
  have r2: "read_until SENTINEL \<lparr>incoming = ?s2, written = ?w2\<rparr> =
            Some (script @ SENTINEL, \<lparr>incoming = ?s3, written = ?w2\<rparr>)"
    by (rule read_until_first[OF borderless_SENTINEL scr])
  have r3: "read_until LF \<lparr>incoming = ?s3, written = ?w3\<rparr> =
            Some (LF, \<lparr>incoming = ?s4, written = ?w3\<rparr>)"
    by (rule read_until_same)
  have r4: "read_until np \<lparr>incoming = ?s4, written = ?w3\<rparr> =
            Some (output @ np, \<lparr>incoming = rest, written = ?w3\<rparr>)"
    by (rule read_until_at_first[OF out])
  show ?thesis
    unfolding execute_with_consumer_def s1
    by (simp add: conn_write_def r1 r2 r3 r4 strip_last_append[OF np])
qed

lemma execute_empty_script:
  "execute_with_consumer np [] \<lparr>incoming = paste_transcript np [] [] [] @ rest, written = w\<rparr> =
     Some ([([], ''stdout'')], \<lparr>incoming = rest, written = w @ [PASTE_MODE_CMD, SENTINEL, EOT]\<rparr>)"
proof -
  let ?w1 = "w @ [PASTE_MODE_CMD]"
  let ?w2 = "w @ [PASTE_MODE_CMD, SENTINEL]"
  let ?w3 = "w @ [PASTE_MODE_CMD, SENTINEL, EOT]"
  have s1: "paste_transcript np [] [] [] @ rest = PASTE_MODE_LINE_PREFIX @ SENTINEL @ LF @ np @ rest"
    by (simp add: paste_transcript_def)
  have r1: "read_until PASTE_MODE_LINE_PREFIX
              \<lparr>incoming = PASTE_MODE_LINE_PREFIX @ SENTINEL @ LF @ np @ rest, written = ?w1\<rparr> =
            Some (PASTE_MODE_LINE_PREFIX, \<lparr>incoming = SENTINEL @ LF @ np @ rest, written = ?w1\<rparr>)"
    by (rule read_until_same)
  have r2: "read_until SENTINEL \<lparr>incoming = SENTINEL @ LF @ np @ rest, written = ?w2\<rparr> =
            Some (SENTINEL, \<lparr>incoming = LF @ np @ rest, written = ?w2\<rparr>)"
    by (rule read_until_same)
  have r3: "read_until LF \<lparr>incoming = LF @ np @ rest, written = ?w3\<rparr> =
            Some (LF, \<lparr>incoming = np @ rest, written = ?w3\<rparr>)"
    by (rule read_until_same)
  have r4: "read_until np \<lparr>incoming = np @ rest, written = ?w3\<rparr> =
            Some (np, \<lparr>incoming = rest, written = ?w3\<rparr>)"
    by (rule read_until_same)
  have st: "strip_last (length np) np = []" by (simp add: strip_last_def)
  show ?thesis
    unfolding execute_with_consumer_def s1
    by (simp add: conn_write_def r1 r2 r3 r4 st)
qed

lemma execute_sound:
  assumes ex: "execute_with_consumer np script ch = Some (calls, ch')" and np: "np \<noteq> []"
  shows "\<exists>r1 r2 r3 out.
           incoming ch = r1 @ r2 @ r3 @ out @ np @ incoming ch' \<and>
           ends_at_first PASTE_MODE_LINE_PREFIX r1 \<and> ends_at_first SENTINEL r2 \<and>
           ends_at_first LF r3 \<and> ends_at_first np (out @ np) \<and> \<not> sublist np out \<and>
           calls = [(out, ''stdout'')] \<and>
           written ch' = written ch @ [PASTE_MODE_CMD, script @ SENTINEL, EOT]"
proof -
  from ex obtain r1 ch2 r2 ch4 r3 ch6 r4 where
    a1: "read_until PASTE_MODE_LINE_PREFIX (conn_write PASTE_MODE_CMD ch) = Some (r1, ch2)" and
    a2: "read_until SENTINEL (conn_write (script @ SENTINEL) ch2) = Some (r2, ch4)" and
    a3: "read_until LF (conn_write EOT ch4) = Some (r3, ch6)" and
    a4: "read_until np ch6 = Some (r4, ch')" and
    c: "calls = [(strip_last (length np) r4, ''stdout'')]"
    by (auto simp: execute_with_consumer_def Let_def bind_eq_Some_conv)
  note s1 = read_until_sound[OF a1] and s2 = read_until_sound[OF a2]
    and s3 = read_until_sound[OF a3] and s4 = read_until_sound[OF a4]
  let ?out = "strip_last (length np) r4"
  from s4 have r4: "r4 = ?out @ np" using endswith_strip_last[of r4 np] np by simp
  have inc: "incoming ch = r1 @ r2 @ r3 @ ?out @ np @ incoming ch'"
    using s1 s2 s3 s4 r4 by (simp add: conn_write_def)
  have wr: "written ch' = written ch @ [PASTE_MODE_CMD, script @ SENTINEL, EOT]"
    using s1 s2 s3 s4 by (simp add: conn_write_def)
  have f4: "ends_at_first np (?out @ np)"
    using read_until_ends_at_first[OF a4] r4 by simp
  from inc wr f4 c read_until_ends_at_first[OF a1] read_until_ends_at_first[OF a2]
       read_until_ends_at_first[OF a3] ends_at_first_no_sublist[OF f4 np]
  show ?thesis by blast
qed

text \<open>
  Claim C3, as the code has it. Whenever all steps complete, the bytes handed to the
  consumer are those between the first line feed after the first \<^verbatim>\<open>#uuu\<close> after the first
  paste-mode line prefix and the first prompt marker that follows, without the marker, and
  the marker does not occur in them. When the script does not contain \<^verbatim>\<open>#uuu\<close>, the
  bytes before the line prefix do not contain the prefix, and the prompt marker at the end
  of the script's output is the first one, that line feed is the interpreter's newline
  after end-of-transmission and the consumer receives exactly the output of the script.
\<close>

theorem execute_with_consumer_output:
  "(np \<noteq> [] \<longrightarrow> execute_with_consumer np script ch = Some (calls, ch') \<longrightarrow>
      (\<exists>r1 r2 r3 out.
          incoming ch = r1 @ r2 @ r3 @ out @ np @ incoming ch' \<and>
          ends_at_first PASTE_MODE_LINE_PREFIX r1 \<and> ends_at_first SENTINEL r2 \<and>
          ends_at_first LF r3 \<and> ends_at_first np (out @ np) \<and> \<not> sublist np out \<and>
          calls = [(out, ''stdout'')])) \<and>
   (np \<noteq> [] \<longrightarrow> \<not> sublist PASTE_MODE_LINE_PREFIX preamble \<longrightarrow>
    \<not> sublist SENTINEL script \<longrightarrow> ends_at_first np (output @ np) \<longrightarrow>
      execute_with_consumer np script
        \<lparr>incoming = paste_transcript np preamble script output @ rest, written = w\<rparr> =
      Some ([(output, ''stdout'')],
            \<lparr>incoming = rest, written = w @ [PASTE_MODE_CMD, script @ SENTINEL, EOT]\<rparr>))"
proof (intro conjI impI)
  assume "np \<noteq> []" and "execute_with_consumer np script ch = Some (calls, ch')"
  from execute_sound[OF this(2,1)]
  show "\<exists>r1 r2 r3 out.
          incoming ch = r1 @ r2 @ r3 @ out @ np @ incoming ch' \<and>
          ends_at_first PASTE_MODE_LINE_PREFIX r1 \<and> ends_at_first SENTINEL r2 \<and>
          ends_at_first LF r3 \<and> ends_at_first np (out @ np) \<and> \<not> sublist np out \<and>
          calls = [(out, ''stdout'')]"
    by blast
next
  assume "np \<noteq> []" and "\<not> sublist PASTE_MODE_LINE_PREFIX preamble"
    and "\<not> sublist SENTINEL script" and "ends_at_first np (output @ np)"
  then show "execute_with_consumer np script
        \<lparr>incoming = paste_transcript np preamble script output @ rest, written = w\<rparr> =
      Some ([(output, ''stdout'')],
            \<lparr>incoming = rest, written = w @ [PASTE_MODE_CMD, script @ SENTINEL, EOT]\<rparr>)"
    by (simp add: execute_on_transcript)
qed

theorem execute_with_consumer_output_witness:
  "execute_with_consumer ''>>> '' ''print(1+1)''
     \<lparr>incoming = paste_transcript ''>>> '' [] ''print(1+1)'' (''2'' @ LF) @ [], written = []\<rparr> =
   Some ([(''2'' @ LF, ''stdout'')],
         \<lparr>incoming = [], written = [] @ [PASTE_MODE_CMD, ''print(1+1)'' @ SENTINEL, EOT]\<rparr>)"
proof -
  have h1: "''>>> '' \<noteq> []" by simp
  have h2: "\<not> sublist PASTE_MODE_LINE_PREFIX []" by code_simp
  have h3: "\<not> sublist SENTINEL ''print(1+1)''" by code_simp
  have h4: "ends_at_first ''>>> '' ((''2'' @ LF) @ ''>>> '')" by code_simp
  from execute_with_consumer_output[of "''>>> ''" "''print(1+1)''" _ _ _ "[]" "''2'' @ LF" "[]" "[]"]
       h1 h2 h3 h4
  show ?thesis by blast
qed

text \<open>
  A script that contains \<^verbatim>\<open>#uuu\<close> followed by a line break: the read for the sentinel
  stops inside the echo of the script, the read for the line feed takes the line break of
  the script, and the rest of the echo, with the sentinel, is handed to the consumer in
  front of the output of the script.
\<close>

theorem execute_sentinel_collision_counterexample:
  "execute_with_consumer ''>>> '' (''print(1) #uuu'' @ LF @ ''print(2)'')
     \<lparr>incoming = paste_transcript ''>>> '' [] (''print(1) #uuu'' @ LF @ ''print(2)'')
                   (''1'' @ LF @ ''2'' @ LF),
      written = []\<rparr> =
   Some ([(''print(2)#uuu'' @ LF @ ''1'' @ LF @ ''2'' @ LF, ''stdout'')],
         \<lparr>incoming = [],
          written = [PASTE_MODE_CMD, (''print(1) #uuu'' @ LF @ ''print(2)'') @ SENTINEL, EOT]\<rparr>) \<and>
   ''print(2)#uuu'' @ LF @ ''1'' @ LF @ ''2'' @ LF \<noteq> ''1'' @ LF @ ''2'' @ LF \<and>
   sublist SENTINEL (''print(2)#uuu'' @ LF @ ''1'' @ LF @ ''2'' @ LF)"
  by code_simp

text \<open>
  Claim C6, as the code has it. The read for the sentinel stops exactly at the sentinel
  appended to the script if and only if the script does not itself contain \<^verbatim>\<open>#uuu\<close>.
  For the empty script, answered by the line prefix, the echoed sentinel, the newline and
  the prompt, all steps complete and the consumer receives the empty byte string.
\<close>

theorem sentinel_boundary:
  "(read_until SENTINEL \<lparr>incoming = script @ SENTINEL @ rest, written = w\<rparr> =
      Some (script @ SENTINEL, \<lparr>incoming = rest, written = w\<rparr>)
    \<longleftrightarrow> \<not> sublist SENTINEL script) \<and>
   execute_with_consumer np []
     \<lparr>incoming = paste_transcript np [] [] [] @ rest, written = w\<rparr> =
   Some ([([], ''stdout'')], \<lparr>incoming = rest, written = w @ [PASTE_MODE_CMD, SENTINEL, EOT]\<rparr>)"
proof (intro conjI iffI)
  assume r: "read_until SENTINEL \<lparr>incoming = script @ SENTINEL @ rest, written = w\<rparr> =
      Some (script @ SENTINEL, \<lparr>incoming = rest, written = w\<rparr>)"
  show "\<not> sublist SENTINEL script"
  proof
    assume "sublist SENTINEL script"
    then obtain a c where script: "script = a @ SENTINEL @ c" by (auto simp: sublist_def)
    from read_until_sound[OF r]
    have early: "\<forall>m<length (script @ SENTINEL).
                   \<not> endswith (take m (script @ SENTINEL @ rest)) SENTINEL"
      by simp
    have m: "length a + length SENTINEL < length (script @ SENTINEL)"
      by (simp add: script SENTINEL_def)
    have "take (length a + length SENTINEL) (script @ SENTINEL @ rest) = a @ SENTINEL"
      by (simp add: script)
    with early m have "\<not> endswith (a @ SENTINEL) SENTINEL" by metis
    then show False by (simp add: endswith_def)
  qed
next
  assume "\<not> sublist SENTINEL script"
  from read_until_first[OF borderless_SENTINEL this]
  show "read_until SENTINEL \<lparr>incoming = script @ SENTINEL @ rest, written = w\<rparr> =
      Some (script @ SENTINEL, \<lparr>incoming = rest, written = w\<rparr>)" .
next
  show "execute_with_consumer np []
     \<lparr>incoming = paste_transcript np [] [] [] @ rest, written = w\<rparr> =
   Some ([([], ''stdout'')], \<lparr>incoming = rest, written = w @ [PASTE_MODE_CMD, SENTINEL, EOT]\<rparr>)"
    by (rule execute_empty_script)
qed

theorem sentinel_boundary_witness:
  "\<not> sublist SENTINEL ''print(1+1)'' \<and>
   read_until SENTINEL \<lparr>incoming = ''print(1+1)'' @ SENTINEL @ LF, written = []\<rparr> =
     Some (''print(1+1)'' @ SENTINEL, \<lparr>incoming = LF, written = []\<rparr>)"
proof -
  have h: "\<not> sublist SENTINEL ''print(1+1)''" by code_simp
  with sentinel_boundary[of "''print(1+1)''" LF "[]"] show ?thesis by blast
qed

text \<open>
  A script with \<^verbatim>\<open>#uuu\<close> in its content: the read stops at that occurrence and leaves the
  rest of the script and the appended sentinel unread.
\<close>

theorem sentinel_inside_script_counterexample:
  "read_until SENTINEL \<lparr>incoming = ''a#uuub'' @ SENTINEL, written = []\<rparr> =
     Some (''a#uuu'', \<lparr>incoming = ''b#uuu'', written = []\<rparr>) \<and>
   ''a#uuu'' \<noteq> ''a#uuub'' @ SENTINEL"
  by code_simp

section \<open>Properties of the session controller\<close>


text \<open>
  Claim C7. Each of the eight unsupported operations raises \<^verbatim>\<open>NotImplementedError\<close>, which
  is not the connection failure, and leaves the backend as it was.
\<close>

theorem unsupported_operations_raise:
  "soft_reboot side_command b = (Some NotImplementedError, b) \<and>
   cmd_get_fs_info cmd1 b = (Some NotImplementedError, b) \<and>
   cmd_write_file cmd2 b = (Some NotImplementedError, b) \<and>
   cmd_delete cmd3 b = (Some NotImplementedError, b) \<and>
   cmd_read_file cmd4 b = (Some NotImplementedError, b) \<and>
   cmd_mkdir cmd5 b = (Some NotImplementedError, b) \<and>
   upload_file source1 target1 notifier1 b = (Some NotImplementedError, b) \<and>
   download_file source2 target2 notifier2 b = (Some NotImplementedError, b) \<and>
   NotImplementedError \<noteq> ConnectionFailedException"
  by (simp add: soft_reboot_def cmd_get_fs_info_def cmd_write_file_def cmd_delete_def
        cmd_read_file_def cmd_mkdir_def upload_file_def download_file_def)

text \<open>
  Claim C10. With a nonempty prompt marker, \<^verbatim>\<open>_forward_unexpected_output\<close> forwards data
  that end with the marker without that marker, forwards other nonempty data unchanged,
  and forwards nothing when no data are available.
\<close>

theorem forward_unexpected_output_cases:
  assumes "np \<noteq> []" and "soft_read (connection b) = Inr (data, conn')"
  shows "(endswith data np \<longrightarrow>
            (\<exists>d. data = d @ np \<and>
                 events (snd (forward_unexpected_output np b)) =
                   events b @ [SendOutput d ''stdout''])) \<and>
         (data \<noteq> [] \<and> \<not> endswith data np \<longrightarrow>
            events (snd (forward_unexpected_output np b)) =
              events b @ [SendOutput data ''stdout'']) \<and>
         (data = [] \<longrightarrow> events (snd (forward_unexpected_output np b)) = events b) \<and>
         connection (snd (forward_unexpected_output np b)) = conn' \<and>
         fst (forward_unexpected_output np b) = None"
proof -
  have empty: "\<not> endswith [] np" using assms(1) by (simp add: endswith_def)
  have strip: "endswith data np \<Longrightarrow> data = strip_last (length np) data @ np"
    using endswith_strip_last[OF _ assms(1), of data] by simp
  show ?thesis
    using empty strip
    by (auto simp: forward_unexpected_output_def assms(2) send_output_def Let_def)
qed

theorem forward_unexpected_output_cases_witness:
  "endswith ''ab>>> '' ''>>> '' \<and>
   (\<exists>d. ''ab>>> '' = d @ ''>>> '' \<and>
      events (snd (forward_unexpected_output ''>>> ''
        \<lparr>connection = live [''ab>>> ''], original_welcome_text = None, welcome_text = None,
         events = []\<rparr>)) = [] @ [SendOutput d ''stdout''])"
proof -
  have h1: "''>>> '' \<noteq> []" by simp
  have h2: "soft_read (connection \<lparr>connection = live [''ab>>> ''], original_welcome_text = None,
              welcome_text = None, events = []\<rparr>) = Inr (''ab>>> '', live [])"
    by (simp add: soft_read_def live_def)
  have h3: "endswith ''ab>>> '' ''>>> ''" by (simp add: endswith_def)
  from forward_unexpected_output_cases[OF h1 h2] h3 show ?thesis by simp
qed




end
